theory Spec2Isabelle
  imports Main
begin

section \<open>Python values\<close>

text \<open>
  The development follows \<^verbatim>\<open>pasture_core.py\<close>; \<^verbatim>\<open>pasture.py\<close> repeats the same
  function bodies under retry decorators and is quoted where it differs.

  A Python \<^verbatim>\<open>str\<close> is a list of Unicode code points. Literals of the source are written
  \<open>u ''...''\<close>. A Python \<^verbatim>\<open>dict\<close> keeps insertion order, so it is an association list
  with distinct keys: \<open>dict_set\<close> overwrites in place or appends.
\<close>

type_synonym pystr = "nat list"

abbreviation u :: "string \<Rightarrow> pystr" where
  "u s \<equiv> map of_char s"

datatype pyfloat = Finite int int | PosInf | NegInf | NaN

datatype json =
    JNull
  | JBool bool
  | JInt int
  | JFloat pyfloat
  | JStr pystr
  | JArr "json list"
  | JObj "(pystr \<times> json) list"

type_synonym pydict = "(pystr \<times> json) list"

text \<open>The exceptions the modelled code raises. A ValueError carries its message; the
  text of a TypeError is the interpreter's.\<close>

datatype py_exception = ValueError pystr | TypeError

fun dict_set :: "'k \<Rightarrow> 'v \<Rightarrow> ('k \<times> 'v) list \<Rightarrow> ('k \<times> 'v) list" where
  "dict_set k v [] = [(k, v)]"
| "dict_set k v ((k', v') # d) = (if k = k' then (k, v) # d else (k', v') # dict_set k v d)"

definition dict_get :: "('k \<times> 'v) list \<Rightarrow> 'k \<Rightarrow> 'v option" where
  "dict_get d k = map_of d k"

definition dict_has :: "'k \<Rightarrow> ('k \<times> 'v) list \<Rightarrow> bool" where
  "dict_has k d = (k \<in> set (map fst d))"

section \<open>Model manager: health tracking\<close>

type_synonym timestamp = nat

record model_status =
  name :: pystr
  loaded :: bool
  healthy :: bool
  failure_count :: int
  last_checked :: "timestamp option"
  last_used :: "timestamp option"

record config =
  simulation_mode :: bool
  fallback_threshold :: int

record request =
  endpoint :: pystr
  http_method :: pystr
  json_data :: "pydict option"

text \<open>
  What the HTTP layer can give back to \<^verbatim>\<open>_request\<close>: a 200 response with its JSON body
  (an object, by the backend's protocol), another status with its text, or one of the
  exceptions \<^verbatim>\<open>_request\<close> catches.
\<close>

datatype http_outcome =
    Http200 pydict
  | HttpStatus nat pystr
  | HttpTimeout
  | HttpClientError pystr
  | HttpOtherError pystr

text \<open>
  The backend and the clock are outside the program: the answer to a request may depend on
  every request sent before it, and \<^verbatim>\<open>time.time()\<close> is read off the same history.
\<close>

record env =
  respond :: "request list \<Rightarrow> request \<Rightarrow> http_outcome"
  now :: "request list \<Rightarrow> timestamp"
  timeout_text :: pystr

record mm_state =
  model_statuses :: "pystr \<rightharpoonup> model_status"
  active_model :: "pystr option"
  loaded_models :: "pystr set"
  sent :: "request list"

definition new_manager :: mm_state where
  "new_manager = \<lparr>model_statuses = Map.empty, active_model = None, loaded_models = {}, sent = []\<rparr>"

fun digit_char :: "nat \<Rightarrow> nat" where
  "digit_char d = 48 + d"

fun str_nat_aux :: "nat \<Rightarrow> nat \<Rightarrow> pystr \<Rightarrow> pystr" where
  "str_nat_aux 0 n acc = acc"
| "str_nat_aux (Suc fuel) n acc =
     (if n < 10 then digit_char n # acc
      else str_nat_aux fuel (n div 10) (digit_char (n mod 10) # acc))"

definition str_nat :: "nat \<Rightarrow> pystr" where
  "str_nat n = str_nat_aux (Suc n) n []"

text \<open>
  \<^verbatim>\<open>_request\<close>. Only the methods \<^verbatim>\<open>"GET"\<close> and \<^verbatim>\<open>"POST"\<close> have a branch: a GET is sent
  without a body, a POST with \<^verbatim>\<open>json_data\<close>; with any other method nothing is sent and the
  function falls off its end, returning \<^verbatim>\<open>None\<close>. \<open>http_exchange\<close> is the part the two
  branches share: the request goes out, and the answer or the exception caught becomes a dict.
\<close>

definition http_exchange :: "env \<Rightarrow> request \<Rightarrow> mm_state \<Rightarrow> pydict \<times> mm_state" where
  "http_exchange e req st =
     (let st' = st\<lparr>sent := sent st @ [req]\<rparr>
      in (case respond e (sent st) req of
            Http200 body \<Rightarrow> (body, st')
          | HttpStatus code text \<Rightarrow>
              ([(u ''error'', JStr (u ''HTTP '' @ str_nat code)), (u ''details'', JStr text)], st')
          | HttpTimeout \<Rightarrow>
              ([(u ''error'', JStr (u ''timeout'')),
                (u ''details'', JStr (u ''Request timed out after '' @ timeout_text e @ u ''s''))], st')
          | HttpClientError msg \<Rightarrow>
              ([(u ''error'', JStr (u ''connection_error'')), (u ''details'', JStr msg)], st')
          | HttpOtherError msg \<Rightarrow>
              ([(u ''error'', JStr (u ''request_failed'')), (u ''details'', JStr msg)], st')))"

definition http_request :: "env \<Rightarrow> pystr \<Rightarrow> pystr \<Rightarrow> pydict option \<Rightarrow> mm_state \<Rightarrow> pydict option \<times> mm_state" where
  "http_request e ep meth payload st =
     (if meth = u ''GET''
      then (case http_exchange e \<lparr>endpoint = ep, http_method = meth, json_data = None\<rparr> st of
              (result, st') \<Rightarrow> (Some result, st'))
      else if meth = u ''POST''
      then (case http_exchange e \<lparr>endpoint = ep, http_method = meth, json_data = payload\<rparr> st of
              (result, st') \<Rightarrow> (Some result, st'))
      else (None, st))"

definition default_status :: "pystr \<Rightarrow> model_status" where
  "default_status n = \<lparr>name = n, loaded = False, healthy = True, failure_count = 0,
                        last_checked = None, last_used = None\<rparr>"

definition get_model_status :: "pystr \<Rightarrow> mm_state \<Rightarrow> model_status \<times> mm_state" where
  "get_model_status n st =
     (case model_statuses st n of
        None \<Rightarrow> (default_status n, st\<lparr>model_statuses := (model_statuses st)(n \<mapsto> default_status n)\<rparr>)
      | Some s \<Rightarrow> (s, st))"

definition put_status :: "pystr \<Rightarrow> model_status \<Rightarrow> mm_state \<Rightarrow> mm_state" where
  "put_status n s st = st\<lparr>model_statuses := (model_statuses st)(n \<mapsto> s)\<rparr>"

definition increment_failure_count :: "config \<Rightarrow> pystr \<Rightarrow> mm_state \<Rightarrow> mm_state" where
  "increment_failure_count cfg n st =
     (let (s, st1) = get_model_status n st;
          s1 = s\<lparr>failure_count := failure_count s + 1\<rparr>;
          s2 = (if failure_count s1 \<ge> fallback_threshold cfg then s1\<lparr>healthy := False\<rparr> else s1)
      in put_status n s2 st1)"

definition hello_probe :: "pystr \<Rightarrow> pydict" where
  "hello_probe n = [(u ''model'', JStr n), (u ''prompt'', JStr (u ''Hello'')), (u ''stream'', JBool False)]"

text \<open>
  \<^verbatim>\<open>check_model_health\<close>. The test \<^verbatim>\<open>"error" in result\<close> raises a TypeError when
  \<^verbatim>\<open>_request\<close> has returned \<^verbatim>\<open>None\<close>; the exception leaves the function (\<open>Inl\<close>) after
  \<^verbatim>\<open>last_checked\<close> has been set.
\<close>

definition check_model_health :: "config \<Rightarrow> env \<Rightarrow> pystr \<Rightarrow> mm_state \<Rightarrow> (py_exception + bool) \<times> mm_state" where
  "check_model_health cfg e n st =
     (if simulation_mode cfg then (Inr True, st)
      else
        let (s, st1) = get_model_status n st in
        if \<not> healthy s then (Inr False, st1)
        else
          let (result, st2) = http_request e (u ''generate'') (u ''POST'') (Some (hello_probe n)) st1;
              s1 = s\<lparr>last_checked := Some (now e (sent st2))\<rparr>;
              st3 = put_status n s1 st2
          in (case result of
                None \<Rightarrow> (Inl TypeError, st3)
              | Some d \<Rightarrow>
                  if dict_has (u ''error'') d then (Inr False, increment_failure_count cfg n st3)
                  else if failure_count s1 > 0
                       then (Inr True, put_status n (s1\<lparr>failure_count := 0, healthy := True\<rparr>) st3)
                       else (Inr True, st3)))"

text \<open>A run of health checks on one model, each against its own environment.\<close>

fun check_many :: "config \<Rightarrow> env list \<Rightarrow> pystr \<Rightarrow> mm_state \<Rightarrow> (py_exception + bool) list \<times> mm_state" where
  "check_many cfg [] n st = ([], st)"
| "check_many cfg (e # es) n st =
     (let (b, st1) = check_model_health cfg e n st;
          (bs, st2) = check_many cfg es n st1
      in (b # bs, st2))"

text \<open>Environments for the examples: a backend that always answers 500, and one that
  always answers 200 with a response.\<close>

definition failing_env :: env where
  "failing_env = \<lparr>respond = (\<lambda>_ _. HttpStatus 500 (u ''Internal Server Error'')),
                  now = length, timeout_text = u ''90.0''\<rparr>"

definition working_env :: env where
  "working_env = \<lparr>respond = (\<lambda>_ _. Http200 [(u ''model'', JStr (u ''m'')),
                                            (u ''response'', JStr (u ''Hello! How can I help?'')),
                                            (u ''done'', JBool True)]),
                  now = length, timeout_text = u ''90.0''\<rparr>"

definition cfg2 :: config where
  "cfg2 = \<lparr>simulation_mode = False, fallback_threshold = 2\<rparr>"

section \<open>Health tracking: properties\<close>

lemma unhealthy_check_is_noop:
  assumes "\<not> simulation_mode cfg" and "model_statuses st n = Some s" and "\<not> healthy s"
  shows "check_model_health cfg e n st = (Inr False, st)"
  using assms by (simp add: check_model_health_def get_model_status_def)

lemma unhealthy_check_many:
  assumes "\<not> simulation_mode cfg" and "model_statuses st n = Some s" and "\<not> healthy s"
  shows "check_many cfg es n st = (replicate (length es) (Inr False), st)"
  using assms by (induction es) (simp_all add: unhealthy_check_is_noop)


lemma increment_marks_unhealthy:
  assumes "model_statuses st n = Some s" and "fallback_threshold cfg \<le> failure_count s + 1"
  shows "model_statuses (increment_failure_count cfg n st) n =
           Some (s\<lparr>failure_count := failure_count s + 1, healthy := False\<rparr>)"
  using assms by (simp add: increment_failure_count_def get_model_status_def put_status_def)

lemma healthy_check_resets_count:
  assumes "\<not> simulation_mode cfg" and "model_statuses st n = Some s" and "healthy s"
    and "respond e (sent st) \<lparr>endpoint = u ''generate'', http_method = u ''POST'',
                               json_data = Some (hello_probe n)\<rparr> = Http200 body"
    and "\<not> dict_has (u ''error'') body" and "0 \<le> failure_count s"
  shows "fst (check_model_health cfg e n st) = Inr True"
    and "map_option failure_count (model_statuses (snd (check_model_health cfg e n st)) n) = Some 0"
  using assms
  by (simp_all add: check_model_health_def get_model_status_def http_request_def http_exchange_def
      put_status_def Let_def)

text \<open>
  C1. Once a model is marked unhealthy, \<^verbatim>\<open>check_model_health\<close> returns before it sends
  the ``Hello'' probe, so the reset of \<open>failure_count\<close> and \<open>healthy\<close> further down is
  never reached for it. Evaluated for model \<open>m\<close> with threshold 2: two probes answered with
  HTTP 500 mark it unhealthy with \<open>failure_count = 2\<close>; a third check, against a backend
  that would answer 200, returns \<open>False\<close>, sends nothing and leaves the state as it was.
\<close>

theorem C1_unhealthy_model_is_never_probed_again:
  "(let st2 = snd (check_many cfg2 [failing_env, failing_env] (u ''m'') new_manager)
    in map_option failure_count (model_statuses st2 (u ''m'')) = Some 2
       \<and> map_option healthy (model_statuses st2 (u ''m'')) = Some False
       \<and> length (sent st2) = 2
       \<and> check_model_health cfg2 working_env (u ''m'') st2 = (Inr False, st2)
       \<and> check_many cfg2 [working_env, working_env, working_env] (u ''m'') st2
           = ([Inr False, Inr False, Inr False], st2))"
proof -
  define st2 where "st2 = snd (check_many cfg2 [failing_env, failing_env] (u ''m'') new_manager)"
  have sim: "\<not> simulation_mode cfg2"
    by (simp add: cfg2_def)
  have st: "model_statuses st2 (u ''m'')
              = Some \<lparr>name = u ''m'', loaded = False, healthy = False, failure_count = 2,
                      last_checked = Some 2, last_used = None\<rparr>"
    and len: "length (sent st2) = 2"
    by (simp_all add: st2_def check_model_health_def get_model_status_def http_request_def
        http_exchange_def put_status_def increment_failure_count_def dict_has_def default_status_def
        new_manager_def failing_env_def cfg2_def Let_def)
  have one: "check_model_health cfg2 working_env (u ''m'') st2 = (Inr False, st2)"
    by (rule unhealthy_check_is_noop [OF sim st]) simp
  have many: "check_many cfg2 [working_env, working_env, working_env] (u ''m'') st2
                = (replicate (length [working_env, working_env, working_env]) (Inr False), st2)"
    by (rule unhealthy_check_many [OF sim st]) simp
  show ?thesis
    unfolding Let_def st2_def [symmetric]
    using st len one many by (simp add: numeral_3_eq_3)
qed


section \<open>Pipeline: running the steps\<close>

text \<open>
  A step is any object with an \<^verbatim>\<open>execute\<close> coroutine. Awaiting it under
  \<^verbatim>\<open>asyncio.wait_for\<close> has three outcomes: it returns a value, the 300 s timeout fires, or
  it raises (the text is \<^verbatim>\<open>str(e)\<close>). A step may change the world \<open>'w\<close> it shares with the
  other steps (the model manager, the cache). \<open>model_name_attr\<close> is what
  \<^verbatim>\<open>getattr(step, "model_name", "unknown")\<close> finds.
\<close>

datatype exec_outcome = Returned json | TimedOut | Raised pystr

record 'w step =
  execute :: "pydict \<Rightarrow> 'w \<Rightarrow> exec_outcome \<times> 'w"
  model_name_attr :: "json option"

type_synonym 'w step_list = "(pystr \<times> 'w step \<times> pystr list) list"

text \<open>Python built-ins the pipeline calls and the repository does not define: \<^verbatim>\<open>str(x)\<close>
  of a value, \<^verbatim>\<open>str\<close> of a list of names, and the difference of two clock readings.\<close>

record 'w builtins =
  str_of :: "json \<Rightarrow> pystr"
  str_of_names :: "pystr list \<Rightarrow> pystr"
  time_between :: "'w \<Rightarrow> 'w \<Rightarrow> json"

definition py_type_name :: "json \<Rightarrow> pystr" where
  "py_type_name v =
     (case v of JNull \<Rightarrow> u ''NoneType'' | JBool _ \<Rightarrow> u ''bool'' | JInt _ \<Rightarrow> u ''int''
      | JFloat _ \<Rightarrow> u ''float'' | JStr _ \<Rightarrow> u ''str'' | JArr _ \<Rightarrow> u ''list'' | JObj _ \<Rightarrow> u ''dict'')"

text \<open>\<^verbatim>\<open>r.get(k)\<close>: only a dict has the method; on any other value it is an
  AttributeError (\<open>Inl\<close>, with the exception's text).\<close>

definition result_get :: "json \<Rightarrow> pystr \<Rightarrow> pystr + json option" where
  "result_get r k =
     (case r of
        JObj d \<Rightarrow> Inr (dict_get d k)
      | _ \<Rightarrow> Inl (u [CHR 0x27] @ py_type_name r @ u [CHR 0x27] @ u '' object has no attribute '' @
                 u [CHR 0x27] @ u ''get'' @ u [CHR 0x27]))"

definition getattr_model_name :: "'w step \<Rightarrow> json" where
  "getattr_model_name s = (case model_name_attr s of None \<Rightarrow> JStr (u ''unknown'') | Some v \<Rightarrow> v)"

definition coerce_output :: "'w builtins \<Rightarrow> json \<Rightarrow> json" where
  "coerce_output b prev_output =
     (case prev_output of
        JObj _ \<Rightarrow> prev_output
      | _ \<Rightarrow> JObj [(u ''response'', JStr (str_of b prev_output))])"

definition output_or_empty :: "json option \<Rightarrow> json" where
  "output_or_empty v = (case v of None \<Rightarrow> JObj [] | Some x \<Rightarrow> x)"

text \<open>The loop \<^verbatim>\<open>for prev_name, prev_result in results.items()\<close> that fills
  \<^verbatim>\<open>robust_data\<close>.\<close>

fun robust_loop :: "'w builtins \<Rightarrow> pydict \<Rightarrow> pydict \<Rightarrow> pystr + pydict" where
  "robust_loop b [] robust_data = Inr robust_data"
| "robust_loop b ((prev_name, prev_result) # rest) robust_data =
     (case result_get prev_result (u ''output'') of
        Inl e \<Rightarrow> Inl e
      | Inr v \<Rightarrow> robust_loop b rest
                  (dict_set prev_name (coerce_output b (output_or_empty v)) robust_data))"

definition error_result :: "pystr \<Rightarrow> json" where
  "error_result msg =
     JObj [(u ''output'', JObj [(u ''response'', JStr (u ''Error: '' @ msg)),
                               (u ''error'', JStr (u ''execution_error''))]),
           (u ''time'', JInt 0),
           (u ''status'', JStr (u ''error''))]"

definition timeout_result :: "'w step \<Rightarrow> json" where
  "timeout_result s =
     JObj [(u ''output'', JObj [(u ''response'', JStr (u ''Execution timed out after 300s'')),
                               (u ''error'', JStr (u ''timeout''))]),
           (u ''time'', JInt 300),
           (u ''model'', getattr_model_name s),
           (u ''status'', JStr (u ''error''))]"

definition missing_result :: "'w builtins \<Rightarrow> 'w step \<Rightarrow> pystr list \<Rightarrow> json" where
  "missing_result b s missing_deps =
     JObj [(u ''output'', JObj [(u ''response'', JStr (u ''Missing dependencies: '' @ str_of_names b missing_deps)),
                               (u ''error'', JStr (u ''missing_dependencies''))]),
           (u ''time'', JInt 0),
           (u ''status'', JStr (u ''error'')),
           (u ''model'', getattr_model_name s)]"

definition placeholder :: "pystr \<Rightarrow> json" where
  "placeholder n =
     JObj [(u ''response'', JStr (u ''Step '' @ n @ u '' failed'')),
           (u ''error'', JStr (u ''step_failed''))]"

text \<open>
  The state of \<^verbatim>\<open>run\<close>'s second loop: the \<^verbatim>\<open>results\<close> and \<^verbatim>\<open>data\<close> dicts and the
  world. \<open>calls\<close> is not a variable of the source: it records, in order, each call
  \<^verbatim>\<open>step.execute(robust_data)\<close> with its step name and its argument, so that what a step
  receives can be stated.
\<close>

record 'w run_state =
  results :: pydict
  data :: pydict
  calls :: "(pystr \<times> pydict) list"
  world :: 'w

text \<open>What follows \<^verbatim>\<open>results[name] = result\<close> inside the \<^verbatim>\<open>try\<close>: the update of
  \<^verbatim>\<open>data\<close>, or the exception a malformed result raises there.\<close>

definition record_result :: "pystr \<Rightarrow> json \<Rightarrow> 'w run_state \<Rightarrow> 'w run_state" where
  "record_result n result st =
     (let st1 = st\<lparr>results := dict_set n result (results st)\<rparr> in
      case result_get result (u ''status'') of
        Inl e \<Rightarrow> st1\<lparr>results := dict_set n (error_result e) (results st1)\<rparr>
      | Inr status \<Rightarrow>
          if status = Some (JStr (u ''success''))
          then (case result_get result (u ''output'') of
                  Inr (Some out) \<Rightarrow> st1\<lparr>data := dict_set n out (data st1)\<rparr>
                | Inr None \<Rightarrow>
                    st1\<lparr>results := dict_set n (error_result (u [CHR 0x27] @ u ''output'' @ u [CHR 0x27]))
                                    (results st1)\<rparr>
                | Inl e \<Rightarrow> st1\<lparr>results := dict_set n (error_result e) (results st1)\<rparr>)
          else st1\<lparr>data := dict_set n (placeholder n) (data st1)\<rparr>)"

text \<open>One round of \<^verbatim>\<open>for step_name in execution_plan\<close>.\<close>

definition run_step :: "'w builtins \<Rightarrow> 'w step_list \<Rightarrow> pydict \<Rightarrow> pystr \<Rightarrow> 'w run_state \<Rightarrow> 'w run_state" where
  "run_step b steps input_data step_name st =
     (case find (\<lambda>s. fst s = step_name) steps of
        None \<Rightarrow> st
      | Some (n, step, dependencies) \<Rightarrow>
          let missing_deps = filter (\<lambda>dep. \<not> dict_has dep (results st)) dependencies in
          if missing_deps \<noteq> []
          then st\<lparr>results := dict_set n (missing_result b step missing_deps) (results st)\<rparr>
          else
            (case robust_loop b (results st) input_data of
               Inl e \<Rightarrow> st\<lparr>results := dict_set n (error_result e) (results st)\<rparr>
             | Inr robust_data \<Rightarrow>
                 (case execute step robust_data (world st) of
                    (outcome, w') \<Rightarrow>
                      let st1 = st\<lparr>calls := calls st @ [(n, robust_data)], world := w'\<rparr> in
                      (case outcome of
                         Returned result \<Rightarrow> record_result n result st1
                       | TimedOut \<Rightarrow> record_result n (timeout_result step) st1
                       | Raised msg \<Rightarrow> st1\<lparr>results := dict_set n (error_result msg) (results st1)\<rparr>))))"

fun run_plan :: "'w builtins \<Rightarrow> 'w step_list \<Rightarrow> pydict \<Rightarrow> pystr list \<Rightarrow> 'w run_state \<Rightarrow> 'w run_state" where
  "run_plan b steps input_data [] st = st"
| "run_plan b steps input_data (step_name # plan) st =
     run_plan b steps input_data plan (run_step b steps input_data step_name st)"

text \<open>The dict comprehension \<^verbatim>\<open>{name: deps for name, _, deps in self.steps}\<close>.\<close>

fun remaining_of :: "'w step_list \<Rightarrow> (pystr \<times> pystr list) list \<Rightarrow> (pystr \<times> pystr list) list" where
  "remaining_of [] d = d"
| "remaining_of ((n, _, deps) # rest) d = remaining_of rest (dict_set n deps d)"

definition ready_steps :: "pydict \<Rightarrow> (pystr \<times> pystr list) list \<Rightarrow> pystr list" where
  "ready_steps res remaining =
     map fst (filter (\<lambda>(n, deps). list_all (\<lambda>dep. dict_has dep res) deps) remaining)"

text \<open>
  The planning loop \<^verbatim>\<open>while remaining_steps\<close>. It tests \<^verbatim>\<open>dep in results\<close> against the
  \<^verbatim>\<open>results\<close> dict of \<^verbatim>\<open>run\<close>, which is still empty while the plan is made; the dict is
  a parameter here and \<^verbatim>\<open>run\<close> passes the empty one.
\<close>

function plan_loop :: "pydict \<Rightarrow> (pystr \<times> pystr list) list \<Rightarrow> pystr list \<Rightarrow> pystr list" where
  "plan_loop res remaining execution_plan =
     (if remaining = [] then execution_plan
      else
        let ready = ready_steps res remaining in
        if ready = [] then execution_plan
        else plan_loop res (filter (\<lambda>(n, deps). n \<notin> set ready) remaining) (execution_plan @ ready))"
  by pat_completeness auto

lemma ready_steps_shrinks:
  assumes "ready_steps res remaining \<noteq> []"
  shows "length (filter (\<lambda>(n, deps). n \<notin> set (ready_steps res remaining)) remaining) < length remaining"
proof -
  from assms obtain x where x: "x \<in> set remaining" "fst x \<in> set (ready_steps res remaining)"
    by (auto simp: ready_steps_def filter_empty_conv)
  then have "\<not> (\<lambda>(n, deps). n \<notin> set (ready_steps res remaining)) x"
    by (simp add: case_prod_beta)
  with x(1) show ?thesis
    by (meson length_filter_less)
qed

termination plan_loop
  by (relation "measure (\<lambda>(res, remaining, plan). length remaining)")
     (use ready_steps_shrinks in auto)

declare plan_loop.simps [simp del]

record pipeline_result =
  pr_results :: pydict
  total_time :: json
  success_count :: nat
  total_count :: nat
  success_rate :: pystr

definition is_success :: "json \<Rightarrow> bool" where
  "is_success r = (result_get r (u ''status'') = Inr (Some (JStr (u ''success''))))"

text \<open>\<^verbatim>\<open>Pipeline.run\<close>, returning the loop's final state beside the result it builds.\<close>

definition run :: "'w builtins \<Rightarrow> 'w step_list \<Rightarrow> pydict \<Rightarrow> 'w \<Rightarrow> pipeline_result \<times> 'w run_state" where
  "run b steps input_data w =
     (let st0 = \<lparr>results = [], data = input_data, calls = [], world = w\<rparr>;
          execution_plan = plan_loop (results st0) (remaining_of steps []) [];
          st = run_plan b steps input_data execution_plan st0;
          sc = length (filter is_success (map snd (results st)))
      in (\<lparr>pr_results = results st,
           total_time = time_between b w (world st),
           success_count = sc,
           total_count = length (results st),
           success_rate = str_nat sc @ u ''/'' @ str_nat (length (results st))\<rparr>, st))"


section \<open>Pipeline: what a step receives\<close>

lemma map_of_dict_set: "map_of (dict_set k v d) = (map_of d)(k \<mapsto> v)"
  by (induction d) (auto simp: fun_eq_iff)

lemma keys_dict_set: "fst ` set (dict_set k v d) = insert k (fst ` set d)"
proof (induction d)
  case Nil
  show ?case by simp
next
  case (Cons a d)
  obtain k' v' where a: "a = (k', v')" by (cases a)
  show ?case
  proof (cases "k = k'")
    case True
    then show ?thesis by (simp add: a)
  next
    case False
    then show ?thesis using Cons.IH by (simp add: a insert_commute)
  qed
qed

lemma distinct_dict_set: "distinct (map fst d) \<Longrightarrow> distinct (map fst (dict_set k v d))"
  by (induction d) (auto simp: keys_dict_set)

lemma vals_dict_set: "snd ` set (dict_set k v d) \<subseteq> insert v (snd ` set d)"
proof (induction d)
  case Nil
  show ?case by simp
next
  case (Cons a d)
  obtain k' v' where a: "a = (k', v')" by (cases a)
  show ?case using Cons.IH by (auto simp: a)
qed

lemma dict_get_dict_set: "dict_get (dict_set k v d) k' = (if k' = k then Some v else dict_get d k')"
  by (simp add: dict_get_def map_of_dict_set)

lemma dict_has_dict_set: "dict_has k' (dict_set k v d) = (k' = k \<or> dict_has k' d)"
  by (auto simp: dict_has_def keys_dict_set)

definition is_dict :: "json \<Rightarrow> bool" where
  "is_dict r = (case r of JObj _ \<Rightarrow> True | _ \<Rightarrow> False)"

definition shown :: "'w builtins \<Rightarrow> json \<Rightarrow> json" where
  "shown b r = (case r of JObj rd \<Rightarrow> coerce_output b (output_or_empty (dict_get rd (u ''output''))) | _ \<Rightarrow> JNull)"

lemma robust_loop_dicts:
  assumes "list_all is_dict (map snd rs)" and "distinct (map fst rs)"
  shows "\<exists>rd'. robust_loop b rs rd = Inr rd' \<and>
           (\<forall>k. dict_get rd' k = (case dict_get rs k of Some r \<Rightarrow> Some (shown b r) | None \<Rightarrow> dict_get rd k))"
  using assms
proof (induction rs arbitrary: rd)
  case Nil
  then show ?case by (simp add: dict_get_def)
next
  case (Cons a rs)
  obtain n r where a: "a = (n, r)" by (cases a)
  from Cons.prems a obtain d where r: "r = JObj d" by (cases r) (auto simp: is_dict_def)
  from Cons.prems a have n: "map_of rs n = None"
    by (simp add: map_of_eq_None_iff)
  from Cons.IH [of "dict_set n (shown b r) rd"] Cons.prems
  obtain rd' where rd': "robust_loop b rs (dict_set n (shown b r) rd) = Inr rd'"
    "\<And>k. dict_get rd' k = (case dict_get rs k of Some r \<Rightarrow> Some (shown b r)
                              | None \<Rightarrow> dict_get (dict_set n (shown b r) rd) k)"
    by auto
  have "robust_loop b (a # rs) rd = Inr rd'"
    using rd'(1) by (simp add: a r result_get_def shown_def)
  moreover have "dict_get rd' k = (case dict_get (a # rs) k of Some r \<Rightarrow> Some (shown b r) | None \<Rightarrow> dict_get rd k)" for k
    using rd'(2) [of k] n by (auto simp: a dict_get_def map_of_dict_set split: option.splits)
  ultimately show ?case by blast
qed


lemma dict_set_twice: "dict_set k v (dict_set k v' d) = dict_set k v d"
  by (induction d) auto

definition res_ok :: "pydict \<Rightarrow> bool" where
  "res_ok rs = (distinct (map fst rs) \<and> list_all is_dict (map snd rs))"

lemma res_ok_dict_set: "res_ok rs \<Longrightarrow> is_dict r \<Longrightarrow> res_ok (dict_set n r rs)"
proof -
  assume ok: "res_ok rs" and r: "is_dict r"
  have "is_dict x" if "x \<in> snd ` set (dict_set n r rs)" for x
  proof -
    from that vals_dict_set [of n r rs] have "x = r \<or> x \<in> snd ` set rs" by blast
    then show ?thesis using ok r by (auto simp: res_ok_def list_all_iff)
  qed
  then show ?thesis
    using ok by (auto simp: res_ok_def distinct_dict_set list_all_iff)
qed

lemma is_dict_simps [simp]:
  "is_dict (error_result e)" "is_dict (timeout_result s)" "is_dict (missing_result b s m)"
  by (simp_all add: is_dict_def error_result_def timeout_result_def missing_result_def)

text \<open>What one recorded result changes.\<close>

definition stored :: "pystr \<Rightarrow> 'w run_state \<Rightarrow> 'w run_state \<Rightarrow> bool" where
  "stored n st st' =
     (res_ok (results st') \<and> fst ` set (results st') = insert n (fst ` set (results st))
      \<and> (\<forall>k. k \<noteq> n \<longrightarrow> dict_get (results st') k = dict_get (results st) k)
      \<and> world st' = world st \<and> calls st' = calls st)"

lemma stored_error:
  "res_ok (results st) \<Longrightarrow> stored n st (st\<lparr>results := dict_set n (error_result e) (results st)\<rparr>)"
  by (simp add: stored_def res_ok_dict_set keys_dict_set dict_get_dict_set)

lemma stored_record_result:
  assumes "res_ok (results st)"
  shows "stored n st (record_result n result st)"
proof (cases "is_dict result")
  case False
  then obtain e where "result_get result (u ''status'') = Inl e"
    by (cases result) (auto simp: result_get_def is_dict_def)
  then have "record_result n result st = st\<lparr>results := dict_set n (error_result e) (results st)\<rparr>"
    by (simp add: record_result_def Let_def dict_set_twice)
  then show ?thesis using stored_error [OF assms] by simp
next
  case True
  then obtain d where d: "result = JObj d" by (cases result) (auto simp: is_dict_def)
  have ok: "res_ok (dict_set n result (results st))"
    using assms True by (rule res_ok_dict_set)
  have plain: "stored n st (st\<lparr>results := dict_set n result (results st), data := dd\<rparr>)" for dd
    using ok by (simp add: stored_def keys_dict_set dict_get_dict_set)
  have sg: "result_get result k = Inr (dict_get d k)" for k
    by (simp add: d result_get_def)
  show ?thesis
  proof (cases "dict_get d (u ''status'') = Some (JStr (u ''success''))")
    case False
    then have "record_result n result st
                 = st\<lparr>results := dict_set n result (results st),
                       data := dict_set n (placeholder n) (data st)\<rparr>"
      by (simp add: record_result_def Let_def sg)
    then show ?thesis using plain by simp
  next
    case succ: True
    show ?thesis
    proof (cases "dict_get d (u ''output'')")
      case None
      then have "record_result n result st
                   = st\<lparr>results := dict_set n (error_result (u [CHR 0x27] @ u ''output'' @ u [CHR 0x27])) (results st)\<rparr>"
        using succ by (simp add: record_result_def Let_def sg dict_set_twice)
      then show ?thesis using stored_error [OF assms] by simp
    next
      case (Some out)
      then have "record_result n result st
                   = st\<lparr>results := dict_set n result (results st), data := dict_set n out (data st)\<rparr>"
        using succ by (simp add: record_result_def Let_def sg)
      then show ?thesis using plain by simp
    qed
  qed
qed

lemma run_step_cases:
  fixes b :: "'w builtins" and steps :: "'w step_list" and input_data :: pydict and n :: pystr
    and st :: "'w run_state"
  assumes ok: "res_ok (results st)"
  shows "run_step b steps input_data n st = st \<or> stored n st (run_step b steps input_data n st) \<or>
        (\<exists>rd st1. robust_loop b (results st) input_data = Inr rd
           \<and> calls st1 = calls st @ [(n, rd)] \<and> results st1 = results st
           \<and> stored n st1 (run_step b steps input_data n st))"
proof (cases "find (\<lambda>s. fst s = n) steps")
  case None
  then show ?thesis by (simp add: run_step_def)
next
  case (Some a)
  obtain m step deps where a: "a = (m, step, deps)" by (cases a)
  from Some have "fst a = n" by (auto simp: find_Some_iff)
  then have m: "m = n" by (simp add: a)
  let ?missing = "filter (\<lambda>dep. \<not> dict_has dep (results st)) deps"
  show ?thesis
  proof (cases "?missing = []")
    case False
    have "run_step b steps input_data n st
            = st\<lparr>results := dict_set n (missing_result b step ?missing) (results st)\<rparr>"
      unfolding run_step_def Some a m using False by (simp add: Let_def)
    moreover have "stored n st (st\<lparr>results := dict_set n (missing_result b step ?missing) (results st)\<rparr>)"
      using ok by (simp add: stored_def res_ok_dict_set keys_dict_set dict_get_dict_set)
    ultimately show ?thesis by simp
  next
    case nomiss: True
    from robust_loop_dicts [of "results st" b input_data] ok
    obtain rd where rd: "robust_loop b (results st) input_data = Inr rd"
      by (auto simp: res_ok_def)
    obtain outcome w' where ex: "execute step rd (world st) = (outcome, w')"
      by (cases "execute step rd (world st)")
    define st1 where "st1 = st\<lparr>calls := calls st @ [(n, rd)], world := w'\<rparr>"
    have st1: "calls st1 = calls st @ [(n, rd)]" "results st1 = results st"
      by (simp_all add: st1_def)
    have ok1: "res_ok (results st1)" using ok st1 by simp
    have unf: "run_step b steps input_data n st =
       (case outcome of
          Returned result \<Rightarrow> record_result n result st1
        | TimedOut \<Rightarrow> record_result n (timeout_result step) st1
        | Raised msg \<Rightarrow> st1\<lparr>results := dict_set n (error_result msg) (results st1)\<rparr>)"
      unfolding run_step_def Some a m using nomiss rd ex
      by (cases outcome) (simp_all add: Let_def st1_def)
    have "stored n st1 (run_step b steps input_data n st)"
      unfolding unf using stored_record_result [OF ok1] stored_error [OF ok1]
      by (cases outcome) simp_all
    then show ?thesis using rd st1 by blast
  qed
qed


lemma run_step_effect:
  fixes b :: "'w builtins" and steps :: "'w step_list" and input_data :: pydict and n :: pystr
    and st :: "'w run_state"
  assumes ok: "res_ok (results st)"
  defines "st' \<equiv> run_step b steps input_data n st"
  shows "res_ok (results st')"
    and "fst ` set (results st') \<subseteq> insert n (fst ` set (results st))"
    and "k \<noteq> n \<Longrightarrow> dict_get (results st') k = dict_get (results st) k"
    and "calls st' = calls st \<or>
         (\<exists>rd. calls st' = calls st @ [(n, rd)] \<and> robust_loop b (results st) input_data = Inr rd
               \<and> n \<in> fst ` set (results st'))"
proof -
  consider "st' = st" | "stored n st st'"
    | rd st1 where "robust_loop b (results st) input_data = Inr rd"
        "calls st1 = calls st @ [(n, rd)]" "results st1 = results st" "stored n st1 st'"
    using run_step_cases [OF ok, of b steps input_data n] unfolding st'_def by blast
  note cases = this
  show "res_ok (results st')"
    using ok by (cases rule: cases) (simp_all add: stored_def)
  show "fst ` set (results st') \<subseteq> insert n (fst ` set (results st))"
    by (cases rule: cases) (auto simp: stored_def)
  show "dict_get (results st') k = dict_get (results st) k" if "k \<noteq> n"
    using that by (cases rule: cases) (simp_all add: stored_def)
  show "calls st' = calls st \<or>
         (\<exists>rd. calls st' = calls st @ [(n, rd)] \<and> robust_loop b (results st) input_data = Inr rd
               \<and> n \<in> fst ` set (results st'))"
    by (cases rule: cases) (simp_all add: stored_def)
qed

definition sees_previous :: "'w builtins \<Rightarrow> 'w run_state \<Rightarrow> bool" where
  "sees_previous b st =
     (res_ok (results st) \<and> fst ` set (calls st) \<subseteq> fst ` set (results st) \<and>
      (\<forall>i<length (calls st). \<forall>j<i. \<exists>r.
          dict_get (results st) (fst (calls st ! j)) = Some r \<and>
          dict_get (snd (calls st ! i)) (fst (calls st ! j)) = Some (shown b r)))"

lemma dict_get_in_keys: "k \<in> fst ` set d \<Longrightarrow> \<exists>v. dict_get d k = Some v"
proof -
  assume "k \<in> fst ` set d"
  then have "map_of d k \<noteq> None" by (simp add: map_of_eq_None_iff)
  then show ?thesis by (auto simp: dict_get_def)
qed

lemma sees_previous_run_step:
  fixes b :: "'w builtins" and st :: "'w run_state"
  assumes inv: "sees_previous b st" and fresh: "n \<notin> fst ` set (results st)"
  shows "sees_previous b (run_step b steps input_data n st)"
proof -
  let ?st' = "run_step b steps input_data n st"
  from inv have ok: "res_ok (results st)"
    and sub: "fst ` set (calls st) \<subseteq> fst ` set (results st)"
    unfolding sees_previous_def by blast+
  have old: "\<exists>r. dict_get (results st) (fst (calls st ! j)) = Some r \<and>
          dict_get (snd (calls st ! i)) (fst (calls st ! j)) = Some (shown b r)"
    if "i < length (calls st)" and "j < i" for i j
    using inv that unfolding sees_previous_def by blast
  note eff = run_step_effect [OF ok, where b = b and steps = steps and input_data = input_data and n = n]
  have keep: "dict_get (results ?st') p = dict_get (results st) p" if "p \<in> fst ` set (results st)" for p
  proof -
    from that fresh have "p \<noteq> n" by blast
    then show ?thesis by (rule eff(3))
  qed
  have called: "fst (calls st ! j) \<in> fst ` set (results st)" if "j < length (calls st)" for j
  proof -
    from that have "calls st ! j \<in> set (calls st)" by simp
    then have "fst (calls st ! j) \<in> fst ` set (calls st)" by (rule imageI)
    with sub show ?thesis by blast
  qed
  have keys: "fst ` set (results st) \<subseteq> fst ` set (results ?st')"
  proof
    fix p assume p: "p \<in> fst ` set (results st)"
    from dict_get_in_keys [OF p] obtain v where "dict_get (results st) p = Some v" by blast
    with keep [OF p] have "dict_get (results ?st') p = Some v" by simp
    then have "map_of (results ?st') p \<noteq> None" by (simp add: dict_get_def)
    then show "p \<in> fst ` set (results ?st')" by (simp add: map_of_eq_None_iff)
  qed
  from eff(4) show ?thesis
  proof
    assume same: "calls ?st' = calls st"
    have "\<exists>r. dict_get (results ?st') (fst (calls st ! j)) = Some r \<and>
              dict_get (snd (calls st ! i)) (fst (calls st ! j)) = Some (shown b r)"
      if i: "i < length (calls st)" and j: "j < i" for i j
    proof -
      from i j have jl: "j < length (calls st)" by simp
      from old [OF i j] keep [OF called [OF jl]] show ?thesis by simp
    qed
    moreover have "fst ` set (calls st) \<subseteq> fst ` set (results ?st')"
      using sub keys by blast
    ultimately show ?thesis
      unfolding sees_previous_def same using eff(1) by blast
  next
    assume "\<exists>rd. calls ?st' = calls st @ [(n, rd)] \<and> robust_loop b (results st) input_data = Inr rd
               \<and> n \<in> fst ` set (results ?st')"
    then obtain rd where app: "calls ?st' = calls st @ [(n, rd)]"
      and rd: "robust_loop b (results st) input_data = Inr rd"
      and nin: "n \<in> fst ` set (results ?st')" by blast
    from robust_loop_dicts [of "results st" b input_data] ok rd
    have look: "dict_get rd k = (case dict_get (results st) k of Some r \<Rightarrow> Some (shown b r)
                                 | None \<Rightarrow> dict_get input_data k)" for k
      by (auto simp: res_ok_def)
    have "\<exists>r. dict_get (results ?st') (fst (calls ?st' ! j)) = Some r \<and>
              dict_get (snd (calls ?st' ! i)) (fst (calls ?st' ! j)) = Some (shown b r)"
      if i: "i < length (calls ?st')" and j: "j < i" for i j
    proof (cases "i < length (calls st)")
      case True
      with j have jl: "j < length (calls st)" by simp
      from old [OF True j] keep [OF called [OF jl]] True jl
      show ?thesis by (simp add: app nth_append)
    next
      case False
      with i have ieq: "i = length (calls st)" by (simp add: app)
      with j have jl: "j < length (calls st)" by simp
      let ?p = "fst (calls st ! j)"
      from dict_get_in_keys [OF called [OF jl]] obtain r where r: "dict_get (results st) ?p = Some r"
        by blast
      have "dict_get rd ?p = Some (shown b r)" using look [of ?p] r by simp
      then show ?thesis
        using r keep [OF called [OF jl]] jl by (simp add: app ieq nth_append)
    qed
    moreover have "fst ` set (calls ?st') \<subseteq> fst ` set (results ?st')"
      using sub keys nin by (auto simp: app)
    ultimately show ?thesis
      unfolding sees_previous_def using eff(1) by blast
  qed
qed

lemma sees_previous_run_plan:
  fixes b :: "'w builtins" and st :: "'w run_state"
  assumes "sees_previous b st" and "distinct plan" and "set plan \<inter> fst ` set (results st) = {}"
  shows "sees_previous b (run_plan b steps input_data plan st)"
  using assms
proof (induction plan arbitrary: st)
  case Nil
  then show ?case by simp
next
  case (Cons n plan)
  let ?st' = "run_step b steps input_data n st"
  from Cons.prems have fresh: "n \<notin> fst ` set (results st)" by auto
  have inv': "sees_previous b ?st'"
    using Cons.prems(1) fresh by (rule sees_previous_run_step)
  from Cons.prems(1) have ok: "res_ok (results st)" by (simp add: sees_previous_def)
  have "fst ` set (results ?st') \<subseteq> insert n (fst ` set (results st))"
    by (rule run_step_effect(2) [OF ok])
  with Cons.prems have "set plan \<inter> fst ` set (results ?st') = {}" by auto
  with Cons.IH [OF inv'] Cons.prems(2) show ?case by simp
qed

lemma distinct_remaining_of:
  "distinct (map fst d) \<Longrightarrow> distinct (map fst (remaining_of steps d))"
  by (induction steps d rule: remaining_of.induct) (simp_all add: distinct_dict_set)

lemma ready_steps_keys: "set (ready_steps res remaining) \<subseteq> fst ` set remaining"
  unfolding ready_steps_def by (induction remaining) auto

lemma ready_steps_distinct:
  "distinct (map fst remaining) \<Longrightarrow> distinct (ready_steps res remaining)"
  unfolding ready_steps_def by (rule distinct_map_filter)

lemma rest_keys:
  "fst ` set (filter (\<lambda>(n, deps). n \<notin> R) remaining) = fst ` set remaining - R"
  by (induction remaining) auto

lemma distinct_plan_loop:
  assumes "distinct (map fst remaining)" and "distinct plan"
    and "set plan \<inter> fst ` set remaining = {}"
  shows "distinct (plan_loop res remaining plan)"
  using assms
proof (induction res remaining plan rule: plan_loop.induct)
  case (1 res remaining plan)
  let ?ready = "ready_steps res remaining"
  let ?rest = "filter (\<lambda>(n, deps). n \<notin> set ?ready) remaining"
  show ?case
  proof (cases "remaining = [] \<or> ?ready = []")
    case True
    have "plan_loop res remaining plan = plan"
      using True by (subst plan_loop.simps) (auto simp: Let_def)
    then show ?thesis using "1.prems"(2) by simp
  next
    case False
    then have ne: "remaining \<noteq> []" "?ready \<noteq> []" by simp_all
    have rd: "distinct ?ready"
      using "1.prems"(1) by (rule ready_steps_distinct)
    have rs: "set ?ready \<subseteq> fst ` set remaining"
      by (rule ready_steps_keys)
    have d1: "distinct (map fst ?rest)"
      using "1.prems"(1) by (rule distinct_map_filter)
    have d2: "distinct (plan @ ?ready)"
      using "1.prems"(2,3) rd rs by (simp add: disjoint_iff subset_iff) blast
    have d3: "set (plan @ ?ready) \<inter> fst ` set ?rest = {}"
      using "1.prems"(3) unfolding rest_keys by auto
    have "distinct (plan_loop res ?rest (plan @ ?ready))"
      by (rule "1.IH" [OF ne(1) refl ne(2) d1 d2 d3])
    moreover have "plan_loop res remaining plan = plan_loop res ?rest (plan @ ?ready)"
      using ne by (subst plan_loop.simps) (simp add: Let_def)
    ultimately show ?thesis by simp
  qed
qed


text \<open>Steps for the examples: one that returns an error result, one that runs into the
  timeout, one that succeeds.\<close>

definition ex_builtins :: "unit builtins" where
  "ex_builtins = \<lparr>str_of = (\<lambda>_. u ''?''), str_of_names = (\<lambda>_. u ''?''),
                    time_between = (\<lambda>_ _. JInt 0)\<rparr>"

definition failing_step :: "unit step" where
  "failing_step =
     \<lparr>execute = (\<lambda>d w. (Returned (JObj [(u ''output'', JObj [(u ''response'', JStr (u ''boom'')),
                                                             (u ''error'', JStr (u ''mock_error''))]),
                                         (u ''status'', JStr (u ''error''))]), w)),
      model_name_attr = None\<rparr>"

definition hanging_step :: "unit step" where
  "hanging_step = \<lparr>execute = (\<lambda>d w. (TimedOut, w)), model_name_attr = Some (JStr (u ''mB''))\<rparr>"

definition ok_step :: "unit step" where
  "ok_step =
     \<lparr>execute = (\<lambda>d w. (Returned (JObj [(u ''output'', JObj [(u ''response'', JStr (u ''fine''))]),
                                         (u ''status'', JStr (u ''success''))]), w)),
      model_name_attr = None\<rparr>"

definition ex_steps :: "unit step_list" where
  "ex_steps = [(u ''A'', failing_step, []), (u ''B'', hanging_step, []), (u ''C'', ok_step, [])]"

definition ex_input :: pydict where
  "ex_input = [(u ''query'', JStr (u ''q''))]"

text \<open>
  C2. The placeholder \<open>{"response": "Step <name> failed", "error": "step_failed"}\<close> is
  written to \<^verbatim>\<open>data\<close>, and \<^verbatim>\<open>data\<close> is never passed on: a step receives
  \<^verbatim>\<open>robust_data\<close>, built from \<^verbatim>\<open>results\<close>. Evaluated on three independent steps, A
  returning an error result and B timing out: C's argument binds A and B to their actual
  error outputs, while the placeholders sit in \<^verbatim>\<open>data\<close>.
\<close>

theorem C2_later_step_receives_actual_error_output:
  "(let st = snd (run ex_builtins ex_steps ex_input ())
    in calls st ! 2 =
         (u ''C'', [(u ''query'', JStr (u ''q'')),
                    (u ''A'', JObj [(u ''response'', JStr (u ''boom'')), (u ''error'', JStr (u ''mock_error''))]),
                    (u ''B'', JObj [(u ''response'', JStr (u ''Execution timed out after 300s'')),
                                    (u ''error'', JStr (u ''timeout''))])])
       \<and> dict_get (snd (calls st ! 2)) (u ''A'') \<noteq> Some (placeholder (u ''A''))
       \<and> dict_get (snd (calls st ! 2)) (u ''B'') \<noteq> Some (placeholder (u ''B''))
       \<and> dict_get (data st) (u ''A'') = Some (placeholder (u ''A''))
       \<and> dict_get (data st) (u ''B'') = Some (placeholder (u ''B'')))"
  by code_simp

text \<open>Steps whose output is not a dict, or is missing, and built-ins for them:
  \<^verbatim>\<open>str\<close> of a string is the string itself.\<close>

definition text_step :: "unit step" where
  "text_step =
     \<lparr>execute = (\<lambda>d w. (Returned (JObj [(u ''output'', JStr (u ''plain text'')),
                                         (u ''status'', JStr (u ''success''))]), w)),
      model_name_attr = None\<rparr>"

definition bare_step :: "unit step" where
  "bare_step =
     \<lparr>execute = (\<lambda>d w. (Returned (JObj [(u ''status'', JStr (u ''error''))]), w)),
      model_name_attr = None\<rparr>"

definition str_builtins :: "unit builtins" where
  "str_builtins = \<lparr>str_of = (\<lambda>v. case v of JStr s \<Rightarrow> s | _ \<Rightarrow> u ''?''),
                     str_of_names = (\<lambda>_. u ''?''), time_between = (\<lambda>_ _. JInt 0)\<rparr>"

definition mixed_steps :: "unit step_list" where
  "mixed_steps = [(u ''A'', text_step, []), (u ''B'', bare_step, []), (u ''C'', failing_step, []),
                  (u ''D'', ok_step, [])]"

lemma later_step_sees_coerced_outputs_example:
  "calls (snd (run str_builtins mixed_steps ex_input ())) ! 3 =
     (u ''D'', [(u ''query'', JStr (u ''q'')),
                (u ''A'', JObj [(u ''response'', JStr (u ''plain text''))]),
                (u ''B'', JObj []),
                (u ''C'', JObj [(u ''response'', JStr (u ''boom'')), (u ''error'', JStr (u ''mock_error''))])])"
  by code_simp

text \<open>
  C10. In every run, the argument of each \<^verbatim>\<open>execute\<close> call binds the name of every step
  executed before it to that step's recorded output. With \<open>rd\<close> the result the run
  returns for the earlier step, the bound value is \<open>rd["output"]\<close> when that is a dict,
  \<open>{}\<close> when \<open>rd\<close> has no \<open>output\<close> entry, and \<open>{"response": str(rd["output"])}\<close>
  otherwise. Dependencies play no part in it.
\<close>

theorem C10_later_steps_see_recorded_outputs:
  fixes b :: "'w builtins"
  assumes "i < length (calls (snd (run b steps input_data w)))" and "j < i"
  shows "\<exists>rd. dict_get (pr_results (fst (run b steps input_data w)))
                 (fst (calls (snd (run b steps input_data w)) ! j)) = Some (JObj rd)
            \<and> dict_get (snd (calls (snd (run b steps input_data w)) ! i))
                 (fst (calls (snd (run b steps input_data w)) ! j))
               = Some (case dict_get rd (u ''output'') of
                         None \<Rightarrow> JObj []
                       | Some (JObj out) \<Rightarrow> JObj out
                       | Some v \<Rightarrow> JObj [(u ''response'', JStr (str_of b v))])"
proof -
  let ?init = "\<lparr>results = [], data = input_data, calls = [], world = w\<rparr>"
  let ?plan = "plan_loop [] (remaining_of steps []) []"
  let ?st = "run_plan b steps input_data ?plan ?init"
  have st: "snd (run b steps input_data w) = ?st"
    by (simp add: run_def Let_def)
  have pr: "pr_results (fst (run b steps input_data w)) = results ?st"
    by (simp add: run_def Let_def)
  have "sees_previous b ?init"
    by (simp add: sees_previous_def res_ok_def)
  moreover have "distinct ?plan"
    by (rule distinct_plan_loop) (simp_all add: distinct_remaining_of)
  ultimately have inv: "sees_previous b ?st"
    by (rule sees_previous_run_plan) simp
  from assms inv obtain r where r: "dict_get (results ?st) (fst (calls ?st ! j)) = Some r"
    "dict_get (snd (calls ?st ! i)) (fst (calls ?st ! j)) = Some (shown b r)"
    unfolding st sees_previous_def by blast
  from inv have "res_ok (results ?st)" by (simp add: sees_previous_def)
  moreover have "r \<in> snd ` set (results ?st)"
  proof -
    from r(1) have "(fst (calls ?st ! j), r) \<in> set (results ?st)"
      by (simp add: dict_get_def map_of_SomeD)
    then show ?thesis by (rule rev_image_eqI) simp
  qed
  ultimately have "is_dict r" by (auto simp: res_ok_def list_all_iff)
  then obtain rd where rd: "r = JObj rd" by (cases r) (auto simp: is_dict_def)
  have "shown b (JObj rd) = (case dict_get rd (u ''output'') of
                         None \<Rightarrow> JObj []
                       | Some (JObj out) \<Rightarrow> JObj out
                       | Some v \<Rightarrow> JObj [(u ''response'', JStr (str_of b v))])"
    by (simp add: shown_def coerce_output_def output_or_empty_def split: option.split json.split)
  with r rd show ?thesis unfolding st pr by simp
qed

theorem C10_later_steps_see_recorded_outputs_witness:
  "3 < length (calls (snd (run str_builtins mixed_steps ex_input ()))) \<and>
   (\<exists>rd. dict_get (pr_results (fst (run str_builtins mixed_steps ex_input ()))) (u ''A'') = Some (JObj rd)
        \<and> dict_get (snd (calls (snd (run str_builtins mixed_steps ex_input ())) ! 3)) (u ''A'')
            = Some (case dict_get rd (u ''output'') of
                      None \<Rightarrow> JObj []
                    | Some (JObj out) \<Rightarrow> JObj out
                    | Some v \<Rightarrow> JObj [(u ''response'', JStr (str_of str_builtins v))]))"
proof -
  have i: "3 < length (calls (snd (run str_builtins mixed_steps ex_input ())))"
    by code_simp
  have j: "(0::nat) < 3"
    by simp
  have n: "fst (calls (snd (run str_builtins mixed_steps ex_input ())) ! 0) = u ''A''"
    by code_simp
  show ?thesis
    using C10_later_steps_see_recorded_outputs [OF i j] i unfolding n by blast
qed


section \<open>Pipeline: construction and the check for circular dependencies\<close>

type_synonym graph = "(pystr \<times> pystr list) list"

text \<open>\<^verbatim>\<open>graph = {}; for name, _, deps in self.steps: graph[name] = deps\<close>.\<close>

fun build_graph :: "'w step_list \<Rightarrow> graph \<Rightarrow> graph" where
  "build_graph [] graph = graph"
| "build_graph ((n, _, deps) # rest) graph = build_graph rest (dict_set n deps graph)"

definition graph_get :: "graph \<Rightarrow> pystr \<Rightarrow> pystr list" where
  "graph_get graph node = (case dict_get graph node of None \<Rightarrow> [] | Some deps \<Rightarrow> deps)"

lemma graph_get_outside: "node \<notin> fst ` set graph \<Longrightarrow> graph_get graph node = []"
  by (simp add: graph_get_def dict_get_def map_of_eq_None_iff [THEN iffD2])

lemma unvisited_shrinks:
  assumes "node \<in> fst ` set graph" and "node \<notin> set path"
  shows "card (fst ` set graph - set (path @ [node])) < card (fst ` set graph - set path)"
proof -
  have "fst ` set graph - set (path @ [node]) \<subset> fst ` set graph - set path"
    using assms by auto
  then show ?thesis
    by (intro psubset_card_mono) auto
qed

text \<open>
  The nested function \<^verbatim>\<open>dfs\<close> and its loop over the dependencies. \<^verbatim>\<open>visited\<close> is
  threaded through the calls; \<^verbatim>\<open>path\<close> is passed down, which is what
  \<^verbatim>\<open>path.append(node)\<close> before the loop and \<^verbatim>\<open>path.pop()\<close> after it amount to, since
  the exception leaves the whole validation. \<open>Inl\<close> carries the list
  \<^verbatim>\<open>path[path.index(node):] + [node]\<close> of the ValueError.
\<close>

function dfs :: "graph \<Rightarrow> pystr \<Rightarrow> pystr list \<Rightarrow> pystr set \<Rightarrow> pystr list + pystr set"
  and dfs_deps :: "graph \<Rightarrow> pystr list \<Rightarrow> pystr list \<Rightarrow> pystr set \<Rightarrow> pystr list + pystr set"
where
  "dfs graph node path visited =
     (if node \<in> set path then Inl (dropWhile (\<lambda>x. x \<noteq> node) path @ [node])
      else if node \<in> visited then Inr visited
      else dfs_deps graph (graph_get graph node) (path @ [node]) (insert node visited))"
| "dfs_deps graph [] path visited = Inr visited"
| "dfs_deps graph (dep # deps) path visited =
     (if \<not> dict_has dep graph then dfs_deps graph deps path visited
      else (case dfs graph dep path visited of
              Inl cycle \<Rightarrow> Inl cycle
            | Inr visited' \<Rightarrow> dfs_deps graph deps path visited'))"
  by pat_completeness auto

termination
  apply (relation "inv_image (less_than <*lex*> less_than)
         (\<lambda>x. case x of
                 Inl (graph, node, path, visited) \<Rightarrow> (card (fst ` set graph - set path), 1)
               | Inr (graph, deps, path, visited) \<Rightarrow> (card (fst ` set graph - set path), 2 * length deps))")
      apply (intro wf_inv_image wf_lex_prod wf_less_than)
  subgoal for graph node path visited
    apply (cases "node \<in> fst ` set graph")
     apply (use unvisited_shrinks [of node graph path] in simp)
    apply (subgoal_tac "fst ` set graph - set (path @ [node]) = fst ` set graph - set path")
     apply (simp add: graph_get_outside)
    apply auto
    done
  apply simp_all
  done

declare dfs.simps [simp del]

text \<open>\<^verbatim>\<open>for node in graph: dfs(node)\<close>, each call starting from the empty path.\<close>

fun dfs_all :: "graph \<Rightarrow> pystr list \<Rightarrow> pystr set \<Rightarrow> pystr list + pystr set" where
  "dfs_all graph [] visited = Inr visited"
| "dfs_all graph (node # nodes) visited =
     (case dfs graph node [] visited of
        Inl cycle \<Rightarrow> Inl cycle
      | Inr visited' \<Rightarrow> dfs_all graph nodes visited')"

fun join :: "pystr \<Rightarrow> pystr list \<Rightarrow> pystr" where
  "join sep [] = []"
| "join sep [x] = x"
| "join sep (x # y # xs) = x @ sep @ join sep (y # xs)"

definition cycle_message :: "pystr list \<Rightarrow> pystr" where
  "cycle_message cycle = u ''Circular dependency detected: '' @ join (u '' -> '') cycle"

definition validate_steps :: "'w step_list \<Rightarrow> py_exception + unit" where
  "validate_steps steps =
     (let graph = build_graph steps [] in
      case dfs_all graph (map fst graph) {} of
        Inl cycle \<Rightarrow> Inl (ValueError (cycle_message cycle))
      | Inr _ \<Rightarrow> Inr ())"

record 'w pipeline =
  pl_steps :: "'w step_list"
  pl_config :: config

text \<open>\<^verbatim>\<open>Pipeline.__init__\<close>: the object exists only if the validation returns.\<close>

definition pipeline_init :: "'w step_list \<Rightarrow> config \<Rightarrow> py_exception + 'w pipeline" where
  "pipeline_init steps cfg =
     (case validate_steps steps of
        Inl e \<Rightarrow> Inl e
      | Inr _ \<Rightarrow> Inr \<lparr>pl_steps = steps, pl_config = cfg\<rparr>)"

text \<open>The client program \<^verbatim>\<open>Pipeline(steps, config).run(input_data)\<close>: its value, the world it
  leaves, and the \<^verbatim>\<open>execute\<close> calls it made.\<close>

definition construct_and_run ::
  "'w builtins \<Rightarrow> 'w step_list \<Rightarrow> config \<Rightarrow> pydict \<Rightarrow> 'w
     \<Rightarrow> (py_exception + pipeline_result) \<times> 'w \<times> (pystr \<times> pydict) list" where
  "construct_and_run b steps cfg input_data w =
     (case pipeline_init steps cfg of
        Inl e \<Rightarrow> (Inl e, w, [])
      | Inr p \<Rightarrow> (case run b (pl_steps p) input_data w of
                   (res, st) \<Rightarrow> (Inr res, world st, calls st)))"

text \<open>The dependency graph as a relation: an edge from a defined step to each of its
  declared dependencies that is itself a defined step.\<close>

definition dep_edges :: "graph \<Rightarrow> (pystr \<times> pystr) set" where
  "dep_edges graph = {(a, b). b \<in> set (graph_get graph a) \<and> dict_has b graph}"

definition has_cycle :: "graph \<Rightarrow> bool" where
  "has_cycle graph = (\<exists>a. (a, a) \<in> (dep_edges graph)\<^sup>+)"

text \<open>A list names a cycle when it has at least two entries, ends where it starts, and
  each entry depends on the next.\<close>

definition lists_cycle :: "graph \<Rightarrow> pystr list \<Rightarrow> bool" where
  "lists_cycle graph cycle =
     (2 \<le> length cycle \<and> hd cycle = last cycle
      \<and> successively (\<lambda>a b. (a, b) \<in> dep_edges graph) cycle)"


subsection \<open>The check finds a cycle exactly when there is one\<close>

lemma dep_edges_iff:
  "(a, b) \<in> dep_edges graph \<longleftrightarrow> b \<in> set (graph_get graph a) \<and> dict_has b graph"
  by (simp add: dep_edges_def)

lemma successively_dropWhile:
  "successively P xs \<Longrightarrow> successively P (dropWhile Q xs)"
proof (induction xs)
  case Nil
  then show ?case by simp
next
  case (Cons x xs)
  then have "successively P xs" by (cases xs) simp_all
  with Cons show ?case by simp
qed

lemma successively_reaches:
  "successively (\<lambda>a b. (a, b) \<in> r) (x # xs) \<Longrightarrow> xs \<noteq> [] \<Longrightarrow> (x, last xs) \<in> r\<^sup>+"
proof (induction xs arbitrary: x)
  case Nil
  then show ?case by simp
next
  case (Cons y ys)
  show ?case
  proof (cases "ys = []")
    case True
    with Cons.prems show ?thesis by auto
  next
    case False
    with Cons.prems have "(x, y) \<in> r" and "(y, last ys) \<in> r\<^sup>+"
      using Cons.IH [of y] by simp_all
    with False show ?thesis by (simp add: trancl_into_trancl2)
  qed
qed

lemma lists_cycle_has_cycle:
  assumes "lists_cycle graph cycle"
  shows "has_cycle graph"
proof -
  from assms obtain x xs where c: "cycle = x # xs" and ne: "xs \<noteq> []"
    by (cases cycle) (auto simp: lists_cycle_def Suc_le_eq)
  from assms c have "successively (\<lambda>a b. (a, b) \<in> dep_edges graph) (x # xs)"
    by (simp add: lists_cycle_def)
  then have "(x, last xs) \<in> (dep_edges graph)\<^sup>+"
    using ne by (rule successively_reaches)
  moreover from assms c ne have "last xs = x" by (simp add: lists_cycle_def)
  ultimately show ?thesis by (auto simp: has_cycle_def)
qed

lemma back_edge_lists_cycle:
  assumes chain: "successively (\<lambda>a b. (a, b) \<in> dep_edges graph) (path @ [node])"
    and on_path: "node \<in> set path"
  shows "lists_cycle graph (dropWhile (\<lambda>x. x \<noteq> node) path @ [node])"
proof -
  let ?d = "dropWhile (\<lambda>x. x \<noteq> node) path"
  have eq: "dropWhile (\<lambda>x. x \<noteq> node) (path @ [node]) = ?d @ [node]"
    using on_path by (simp add: dropWhile_append1)
  have ne: "?d \<noteq> []" using on_path by (simp add: dropWhile_eq_Nil_conv)
  then have "hd ?d = node" using hd_dropWhile [of "\<lambda>x. x \<noteq> node" path] by simp
  with ne have "hd (?d @ [node]) = last (?d @ [node])" by simp
  moreover from ne have "2 \<le> length (?d @ [node])" by (cases ?d) simp_all
  moreover have "successively (\<lambda>a b. (a, b) \<in> dep_edges graph) (?d @ [node])"
    using successively_dropWhile [OF chain, of "\<lambda>x. x \<noteq> node"] unfolding eq .
  ultimately show ?thesis unfolding lists_cycle_def by blast
qed

lemma dfs_sound:
  shows "dfs graph node path visited = Inl cycle
           \<Longrightarrow> successively (\<lambda>a b. (a, b) \<in> dep_edges graph) (path @ [node])
           \<Longrightarrow> lists_cycle graph cycle"
    and "dfs_deps graph deps path visited = Inl cycle
           \<Longrightarrow> successively (\<lambda>a b. (a, b) \<in> dep_edges graph) path \<Longrightarrow> path \<noteq> []
           \<Longrightarrow> set deps \<subseteq> set (graph_get graph (last path))
           \<Longrightarrow> lists_cycle graph cycle"
proof (induction graph node path visited and graph deps path visited rule: dfs_dfs_deps.induct)
  case (1 graph node path visited)
  show ?case
  proof (cases "node \<in> set path")
    case True
    with "1.prems" have "cycle = dropWhile (\<lambda>x. x \<noteq> node) path @ [node]"
      by (simp add: dfs.simps)
    with "1.prems"(2) True show ?thesis by (simp add: back_edge_lists_cycle)
  next
    case False
    with "1.prems"(1) have nv: "node \<notin> visited"
      and rec: "dfs_deps graph (graph_get graph node) (path @ [node]) (insert node visited) = Inl cycle"
      by (auto simp: dfs.simps split: if_splits)
    show ?thesis
      using "1.IH" [OF False nv rec] "1.prems"(2) by simp
  qed
next
  case (2 graph path visited)
  then show ?case by simp
next
  case (3 graph dep deps path visited)
  from "3.prems"(4) have deps: "set deps \<subseteq> set (graph_get graph (last path))" by simp
  show ?case
  proof (cases "dict_has dep graph")
    case False
    with "3.prems"(1) have "dfs_deps graph deps path visited = Inl cycle" by simp
    from "3.IH"(1) [OF _ this "3.prems"(2,3) deps] False show ?thesis by simp
  next
    case True
    with "3.prems" have edge: "(last path, dep) \<in> dep_edges graph"
      by (simp add: dep_edges_iff)
    have chain: "successively (\<lambda>a b. (a, b) \<in> dep_edges graph) (path @ [dep])"
      using "3.prems"(2,3) edge by (simp add: successively_append_iff)
    show ?thesis
    proof (cases "dfs graph dep path visited")
      case (Inl c)
      with True "3.prems"(1) have "c = cycle" by simp
      with Inl "3.IH"(2) [of ] True chain show ?thesis by simp
    next
      case (Inr visited')
      with True "3.prems"(1) have "dfs_deps graph deps path visited' = Inl cycle" by simp
      from "3.IH"(3) [OF _ Inr this "3.prems"(2,3) deps] True show ?thesis by simp
    qed
  qed
qed

definition settled :: "graph \<Rightarrow> pystr set \<Rightarrow> bool" where
  "settled graph F =
     ((\<forall>a b. a \<in> F \<and> (a, b) \<in> dep_edges graph \<longrightarrow> b \<in> F)
      \<and> (\<forall>a. a \<in> F \<longrightarrow> (a, a) \<notin> (dep_edges graph)\<^sup>+))"

lemma settled_reach:
  assumes "settled graph F" and "(a, b) \<in> (dep_edges graph)\<^sup>*" and "a \<in> F"
  shows "b \<in> F"
  using assms(2,3)
proof (induction rule: rtrancl_induct)
  case base
  then show ?case by simp
next
  case (step y z)
  with assms(1) show ?case unfolding settled_def by blast
qed

lemma settled_insert:
  assumes F: "settled graph F"
    and succ: "\<And>b. (n, b) \<in> dep_edges graph \<Longrightarrow> b \<in> F"
    and fresh: "n \<notin> F"
  shows "settled graph (insert n F)"
proof -
  have "(n, n) \<notin> (dep_edges graph)\<^sup>+"
  proof
    assume "(n, n) \<in> (dep_edges graph)\<^sup>+"
    then obtain b where "(n, b) \<in> dep_edges graph" and "(b, n) \<in> (dep_edges graph)\<^sup>*"
      by (meson tranclD)
    with succ settled_reach [OF F] have "n \<in> F" by blast
    with fresh show False by simp
  qed
  with F succ show ?thesis unfolding settled_def by blast
qed

lemma dfs_complete:
  shows "dfs graph node path visited = Inr visited'
           \<Longrightarrow> set path \<subseteq> visited \<Longrightarrow> settled graph (visited - set path)
           \<Longrightarrow> visited \<subseteq> visited' \<and> node \<in> visited' - set path
               \<and> settled graph (visited' - set path)"
    and "dfs_deps graph deps path visited = Inr visited'
           \<Longrightarrow> set path \<subseteq> visited \<Longrightarrow> settled graph (visited - set path)
           \<Longrightarrow> visited \<subseteq> visited'
               \<and> (\<forall>d. d \<in> set deps \<and> dict_has d graph \<longrightarrow> d \<in> visited' - set path)
               \<and> settled graph (visited' - set path)"
proof (induction graph node path visited and graph deps path visited arbitrary: visited' and visited'
    rule: dfs_dfs_deps.induct)
  case (1 graph node path visited)
  from "1.prems"(1) have np: "node \<notin> set path"
    by (auto simp: dfs.simps split: if_splits)
  show ?case
  proof (cases "node \<in> visited")
    case True
    with np "1.prems" show ?thesis by (simp add: dfs.simps)
  next
    case False
    with np "1.prems"(1)
    have rec: "dfs_deps graph (graph_get graph node) (path @ [node]) (insert node visited) = Inr visited'"
      by (simp add: dfs.simps)
    have same: "insert node visited - set (path @ [node]) = visited - set path"
      using False by auto
    have sub: "set (path @ [node]) \<subseteq> insert node visited"
      using "1.prems"(2) by auto
    from "1.IH" [OF np False rec sub] "1.prems"(3) same
    have inc: "insert node visited \<subseteq> visited'"
      and deps: "\<And>d. d \<in> set (graph_get graph node) \<Longrightarrow> dict_has d graph
                   \<Longrightarrow> d \<in> visited' - set (path @ [node])"
      and st: "settled graph (visited' - set (path @ [node]))"
      by auto
    have split: "visited' - set path = insert node (visited' - set (path @ [node]))"
      using inc np by auto
    have "settled graph (insert node (visited' - set (path @ [node])))"
      using st
    proof (rule settled_insert)
      fix b assume "(node, b) \<in> dep_edges graph"
      then show "b \<in> visited' - set (path @ [node])"
        using deps by (simp add: dep_edges_iff)
    qed simp
    with inc np split show ?thesis by auto
  qed
next
  case (2 graph path visited)
  then show ?case by simp
next
  case (3 graph dep deps path visited)
  show ?case
  proof (cases "dict_has dep graph")
    case False
    with "3.prems"(1) have "dfs_deps graph deps path visited = Inr visited'" by simp
    from "3.IH"(1) [OF _ this "3.prems"(2,3)] False show ?thesis by auto
  next
    case True
    show ?thesis
    proof (cases "dfs graph dep path visited")
      case (Inl c)
      with True "3.prems"(1) show ?thesis by simp
    next
      case (Inr v1)
      with True "3.prems"(1) have rest: "dfs_deps graph deps path v1 = Inr visited'" by simp
      from "3.IH"(2) [OF _ Inr "3.prems"(2,3)] True
      have a: "visited \<subseteq> v1" "dep \<in> v1 - set path" "settled graph (v1 - set path)" by auto
      from a(1) "3.prems"(2) have "set path \<subseteq> v1" by auto
      from "3.IH"(3) [OF _ Inr rest this a(3)] True
      have b: "v1 \<subseteq> visited'"
        "\<And>d. d \<in> set deps \<Longrightarrow> dict_has d graph \<Longrightarrow> d \<in> visited' - set path"
        "settled graph (visited' - set path)" by auto
      from a b show ?thesis by auto
    qed
  qed
qed

lemma dfs_all_sound:
  "dfs_all graph nodes visited = Inl cycle \<Longrightarrow> lists_cycle graph cycle"
proof (induction nodes arbitrary: visited)
  case Nil
  then show ?case by simp
next
  case (Cons node nodes)
  show ?case
  proof (cases "dfs graph node [] visited")
    case (Inl c)
    with Cons.prems have "c = cycle" by simp
    with Inl show ?thesis using dfs_sound(1) [of graph node "[]" visited cycle] by simp
  next
    case (Inr v)
    with Cons show ?thesis by simp
  qed
qed

lemma dfs_all_complete:
  "dfs_all graph nodes visited = Inr visited' \<Longrightarrow> settled graph visited
     \<Longrightarrow> visited \<subseteq> visited' \<and> set nodes \<subseteq> visited' \<and> settled graph visited'"
proof (induction nodes arbitrary: visited)
  case Nil
  then show ?case by simp
next
  case (Cons node nodes)
  show ?case
  proof (cases "dfs graph node [] visited")
    case (Inl c)
    with Cons.prems show ?thesis by simp
  next
    case (Inr v)
    with Cons.prems(1) have rest: "dfs_all graph nodes v = Inr visited'" by simp
    from dfs_complete(1) [OF Inr] Cons.prems(2)
    have a: "visited \<subseteq> v" "node \<in> v" "settled graph v" by auto
    from Cons.IH [OF rest a(3)] a show ?thesis by auto
  qed
qed

lemma validated_iff_acyclic:
  "(\<exists>visited. dfs_all graph (map fst graph) {} = Inr visited) \<longleftrightarrow> \<not> has_cycle graph"
proof
  assume "\<exists>visited. dfs_all graph (map fst graph) {} = Inr visited"
  then obtain visited where v: "dfs_all graph (map fst graph) {} = Inr visited" by blast
  have "settled graph {}" by (simp add: settled_def)
  from dfs_all_complete [OF v this]
  have keys: "fst ` set graph \<subseteq> visited" and st: "settled graph visited" by auto
  show "\<not> has_cycle graph"
  proof
    assume "has_cycle graph"
    then obtain a where a: "(a, a) \<in> (dep_edges graph)\<^sup>+" by (auto simp: has_cycle_def)
    then obtain b where "(b, a) \<in> dep_edges graph" by (meson tranclE)
    then have "a \<in> fst ` set graph" by (simp add: dep_edges_iff dict_has_def)
    with keys st a show False unfolding settled_def by blast
  qed
next
  assume acyclic: "\<not> has_cycle graph"
  show "\<exists>visited. dfs_all graph (map fst graph) {} = Inr visited"
  proof (cases "dfs_all graph (map fst graph) {}")
    case (Inl cycle)
    then have "has_cycle graph" by (intro lists_cycle_has_cycle dfs_all_sound)
    with acyclic show ?thesis by simp
  next
    case (Inr visited)
    then show ?thesis by blast
  qed
qed

lemma build_graph_other:
  "n \<notin> fst ` set steps \<Longrightarrow> dict_get (build_graph steps graph) n = dict_get graph n"
proof (induction steps graph rule: build_graph.induct)
  case (1 graph)
  show ?case by simp
next
  case (2 m s deps rest graph)
  then show ?case by (simp add: dict_get_dict_set)
qed

lemma build_graph_keys:
  "fst ` set (build_graph steps graph) = fst ` set steps \<union> fst ` set graph"
  by (induction steps graph rule: build_graph.induct) (auto simp: keys_dict_set)

lemma build_graph_deps:
  assumes "distinct (map fst steps)" and "(n, s, deps) \<in> set steps"
  shows "dict_get (build_graph steps graph) n = Some deps"
  using assms
proof (induction steps graph rule: build_graph.induct)
  case (1 graph)
  then show ?case by simp
next
  case (2 m s' deps' rest graph)
  from "2.prems"(1) have d: "distinct (map fst rest)" and fresh: "m \<notin> fst ` set rest" by simp_all
  show ?case
  proof (cases "(n, s, deps) \<in> set rest")
    case True
    from "2.IH" [OF d True] show ?thesis by simp
  next
    case False
    with "2.prems"(2) have eq: "n = m" "deps = deps'" by simp_all
    with fresh show ?thesis by (simp add: build_graph_other dict_get_dict_set)
  qed
qed

lemma dep_edges_of_steps:
  assumes d: "distinct (map fst steps)"
  shows "(a, b) \<in> dep_edges (build_graph steps []) \<longleftrightarrow>
           (\<exists>s deps. (a, s, deps) \<in> set steps \<and> b \<in> set deps) \<and> b \<in> fst ` set steps"
proof -
  have keys: "dict_has b (build_graph steps []) \<longleftrightarrow> b \<in> fst ` set steps"
    by (simp add: dict_has_def build_graph_keys)
  have declared: "b \<in> set (graph_get (build_graph steps []) a) \<longleftrightarrow>
                    (\<exists>s deps. (a, s, deps) \<in> set steps \<and> b \<in> set deps)"
  proof (cases "\<exists>s deps. (a, s, deps) \<in> set steps")
    case True
    then obtain s deps where m: "(a, s, deps) \<in> set steps" by blast
    have g: "graph_get (build_graph steps []) a = deps"
      using build_graph_deps [OF d m] by (simp add: graph_get_def)
    have "deps' = deps" if "(a, s', deps') \<in> set steps" for s' deps'
      using build_graph_deps [OF d m, of "[]"] build_graph_deps [OF d that, of "[]"] by simp
    with m show ?thesis unfolding g by blast
  next
    case False
    then have "a \<notin> fst ` set steps" by force
    then have "dict_get (build_graph steps []) a = dict_get [] a"
      by (rule build_graph_other)
    then have "graph_get (build_graph steps []) a = []"
      by (simp add: graph_get_def dict_get_def)
    with False show ?thesis by simp
  qed
  show ?thesis
    unfolding dep_edges_iff keys declared ..
qed

definition cyclic_steps :: "unit step_list" where
  "cyclic_steps = [(u ''a'', ok_step, [u ''b'']), (u ''b'', ok_step, [u ''a''])]"

definition chain_steps :: "unit step_list" where
  "chain_steps = [(u ''a'', ok_step, []), (u ''b'', ok_step, [u ''a'']), (u ''c'', ok_step, [u ''b'', u ''zz''])]"

text \<open>
  C7. When the dependency graph built from the steps has a cycle among the defined step
  names, \<^verbatim>\<open>Pipeline(steps, config)\<close> raises the ValueError whose message lists a cycle of that
  graph, so no pipeline object exists, \<^verbatim>\<open>run\<close> is not reached, no step is executed and the
  world is untouched. When the graph has no cycle, the construction returns the pipeline.
\<close>

theorem C7_cycle_raises_at_construction:
  fixes steps :: "'w step_list" and b :: "'w builtins"
  shows "(has_cycle (build_graph steps []) \<longrightarrow>
            (\<exists>cycle. lists_cycle (build_graph steps []) cycle
               \<and> pipeline_init steps cfg = Inl (ValueError (cycle_message cycle))
               \<and> construct_and_run b steps cfg input_data w
                   = (Inl (ValueError (cycle_message cycle)), w, [])))
       \<and> (\<not> has_cycle (build_graph steps []) \<longrightarrow>
            pipeline_init steps cfg = Inr \<lparr>pl_steps = steps, pl_config = cfg\<rparr>)"
proof (intro conjI impI)
  let ?g = "build_graph steps []"
  assume "has_cycle ?g"
  with validated_iff_acyclic [of ?g] obtain cycle
    where c: "dfs_all ?g (map fst ?g) {} = Inl cycle"
    by (cases "dfs_all ?g (map fst ?g) {}") auto
  then have "lists_cycle ?g cycle" by (rule dfs_all_sound)
  moreover from c have i: "pipeline_init steps cfg = Inl (ValueError (cycle_message cycle))"
    by (simp add: pipeline_init_def validate_steps_def)
  moreover from i have "construct_and_run b steps cfg input_data w
                   = (Inl (ValueError (cycle_message cycle)), w, [])"
    by (simp add: construct_and_run_def)
  ultimately show "\<exists>cycle. lists_cycle ?g cycle
               \<and> pipeline_init steps cfg = Inl (ValueError (cycle_message cycle))
               \<and> construct_and_run b steps cfg input_data w
                   = (Inl (ValueError (cycle_message cycle)), w, [])"
    by blast
next
  let ?g = "build_graph steps []"
  assume "\<not> has_cycle ?g"
  with validated_iff_acyclic [of ?g] obtain visited
    where "dfs_all ?g (map fst ?g) {} = Inr visited" by blast
  then show "pipeline_init steps cfg = Inr \<lparr>pl_steps = steps, pl_config = cfg\<rparr>"
    by (simp add: pipeline_init_def validate_steps_def)
qed

theorem C7_cycle_raises_at_construction_witness:
  "has_cycle (build_graph cyclic_steps [])
   \<and> (\<exists>cycle. lists_cycle (build_graph cyclic_steps []) cycle
         \<and> pipeline_init cyclic_steps cfg2 = Inl (ValueError (cycle_message cycle))
         \<and> construct_and_run ex_builtins cyclic_steps cfg2 ex_input ()
             = (Inl (ValueError (cycle_message cycle)), (), []))
   \<and> \<not> has_cycle (build_graph chain_steps [])
   \<and> pipeline_init chain_steps cfg2 = Inr \<lparr>pl_steps = chain_steps, pl_config = cfg2\<rparr>"
proof -
  have g: "build_graph cyclic_steps [] = [(u ''a'', [u ''b'']), (u ''b'', [u ''a''])]"
    by (simp add: cyclic_steps_def)
  have "(u ''a'', u ''b'') \<in> dep_edges (build_graph cyclic_steps [])"
    and "(u ''b'', u ''a'') \<in> dep_edges (build_graph cyclic_steps [])"
    unfolding g by (simp_all add: dep_edges_def graph_get_def dict_get_def dict_has_def)
  then have "(u ''a'', u ''a'') \<in> (dep_edges (build_graph cyclic_steps []))\<^sup>+"
    by (rule trancl.intros(2) [OF trancl.intros(1)])
  then have cyc: "has_cycle (build_graph cyclic_steps [])"
    unfolding has_cycle_def by blast
  have "\<exists>visited. dfs_all (build_graph chain_steps []) (map fst (build_graph chain_steps [])) {} = Inr visited"
    by (rule exI [of _ "{u ''a'', u ''b'', u ''c''}"]) code_simp
  then have acyc: "\<not> has_cycle (build_graph chain_steps [])"
    by (simp add: validated_iff_acyclic)
  from C7_cycle_raises_at_construction [of cyclic_steps cfg2 ex_builtins ex_input "()"] cyc
    C7_cycle_raises_at_construction [of chain_steps cfg2 ex_builtins ex_input "()"] acyc
  show ?thesis by blast
qed

lemma cycle_rejection_example:
  "validate_steps cyclic_steps
     = Inl (ValueError (u ''Circular dependency detected: a -> b -> a''))"
  by code_simp


section \<open>Cache keys\<close>

text \<open>
  \<^verbatim>\<open>json.dumps\<close> with its defaults: separators \<open>", "\<close> and \<open>": "\<close>, \<^verbatim>\<open>ensure_ascii\<close>, no
  \<^verbatim>\<open>sort_keys\<close>. A finite float is written by \<^verbatim>\<open>float.__repr__\<close>, which is a parameter
  here (\<open>fr\<close>, applied to the float as the model holds it).
\<close>

definition str_int :: "int \<Rightarrow> pystr" where
  "str_int i = (if i < 0 then 45 # str_nat (nat (- i)) else str_nat (nat i))"

definition hex_digit :: "nat \<Rightarrow> nat" where
  "hex_digit d = (if d < 10 then 48 + d else 87 + d)"

definition hex4 :: "nat \<Rightarrow> pystr" where
  "hex4 n = [hex_digit (n div 4096 mod 16), hex_digit (n div 256 mod 16),
             hex_digit (n div 16 mod 16), hex_digit (n mod 16)]"

definition escape_char :: "nat \<Rightarrow> pystr" where
  "escape_char c =
     (if c = 34 then [92, 34]
      else if c = 92 then [92, 92]
      else if c = 10 then [92, 110]
      else if c = 13 then [92, 114]
      else if c = 9 then [92, 116]
      else if c = 12 then [92, 102]
      else if c = 8 then [92, 98]
      else if 32 \<le> c \<and> c \<le> 126 then [c]
      else if c < 65536 then [92, 117] @ hex4 c
      else [92, 117] @ hex4 (55296 + (c - 65536) div 1024 mod 1024)
           @ [92, 117] @ hex4 (56320 + (c - 65536) mod 1024))"

definition encode_basestring_ascii :: "pystr \<Rightarrow> pystr" where
  "encode_basestring_ascii s = 34 # concat (map escape_char s) @ [34]"

definition dumps_float :: "(int \<Rightarrow> int \<Rightarrow> pystr) \<Rightarrow> pyfloat \<Rightarrow> pystr" where
  "dumps_float float_repr f =
     (case f of NaN \<Rightarrow> u ''NaN'' | PosInf \<Rightarrow> u ''Infinity'' | NegInf \<Rightarrow> u ''-Infinity''
      | Finite m e \<Rightarrow> float_repr m e)"

fun dumps :: "(int \<Rightarrow> int \<Rightarrow> pystr) \<Rightarrow> json \<Rightarrow> pystr" where
  "dumps fr JNull = u ''null''"
| "dumps fr (JBool b) = (if b then u ''true'' else u ''false'')"
| "dumps fr (JInt i) = str_int i"
| "dumps fr (JFloat f) = dumps_float fr f"
| "dumps fr (JStr s) = encode_basestring_ascii s"
| "dumps fr (JArr xs) = u ''['' @ join (u '', '') (map (dumps fr) xs) @ u '']''"
| "dumps fr (JObj kvs) =
     u ''{'' @ join (u '', '') (map (\<lambda>kv. encode_basestring_ascii (fst kv) @ u '': '' @ dumps fr (snd kv)) kvs)
     @ u ''}''"

definition create_cache_key :: "(int \<Rightarrow> int \<Rightarrow> pystr) \<Rightarrow> pystr \<Rightarrow> pystr \<Rightarrow> pydict \<Rightarrow> pystr" where
  "create_cache_key fr model_name prompt options =
     model_name @ u '':'' @ prompt @ u '':'' @ dumps fr (JObj options)"




definition ex_float_repr :: "int \<Rightarrow> int \<Rightarrow> pystr" where
  "ex_float_repr m e = u ''0.7''"





definition surrogate_names :: pydict where
  "surrogate_names = [([128512], JInt 1), ([55357, 56832], JInt 1)]"

subsection \<open>The encoding of names is a prefix code\<close>





lemma length_hex4 [simp]: "length (hex4 n) = 4"
  by (simp add: hex4_def)

















text \<open>The condition on the names is needed: a name holding one character above U+FFFF
  and a name holding its two surrogates are written alike.\<close>

lemma surrogate_names_share_a_key:
  "distinct (map fst surrogate_names) \<and> set surrogate_names = set (rev surrogate_names)
   \<and> surrogate_names \<noteq> rev surrogate_names
   \<and> create_cache_key ex_float_repr (u ''llama3'') (u ''P'') surrogate_names
       = create_cache_key ex_float_repr (u ''llama3'') (u ''P'') (rev surrogate_names)"
proof -
  have k: "create_cache_key ex_float_repr (u ''llama3'') (u ''P'') surrogate_names
       = create_cache_key ex_float_repr (u ''llama3'') (u ''P'') (rev surrogate_names)"
    by (simp add: create_cache_key_def surrogate_names_def encode_basestring_ascii_def
        escape_char_def hex4_def hex_digit_def)
  have s: "set surrogate_names = set (rev surrogate_names)"
    by simp
  have "distinct (map fst surrogate_names)" "surrogate_names \<noteq> rev surrogate_names"
    by (simp_all add: surrogate_names_def)
  with k s show ?thesis by blast
qed

end
